theory Spec2Isabelle
  imports Complex_Main
begin

section \<open>Values\<close>

text \<open>
  The engine stores native Python values: \<^verbatim>\<open>None\<close>, booleans, integers, floats, texts and
  lists of values. A float is represented by the real number it denotes (infinities and NaN
  are outside this model). A text is the list of the bytes of its UTF-8 encoding, so that
  equality of texts is equality of lists.
\<close>

datatype pyval = PNone | PBool bool | PInt int | PFloat real | PStr string | PList "pyval list"

datatype pyerror = TypeError | ValueError | OverflowError | KeyError

text \<open>The number a numeric value denotes; \<^verbatim>\<open>bool\<close> is a subclass of \<^verbatim>\<open>int\<close>.\<close>

fun py_num :: "pyval \<Rightarrow> real option" where
  "py_num (PBool b) = Some (if b then 1 else 0)"
| "py_num (PInt i) = Some (of_int i)"
| "py_num (PFloat r) = Some r"
| "py_num _ = None"

text \<open>
  Python's \<^verbatim>\<open>a == b\<close>: numbers compare by value across \<^verbatim>\<open>bool\<close>, \<^verbatim>\<open>int\<close> and
  \<^verbatim>\<open>float\<close>, texts by content, lists element by element; values of different kinds
  are unequal.
\<close>

fun py_eq :: "pyval \<Rightarrow> pyval \<Rightarrow> bool" where
  "py_eq (PStr s) (PStr t) = (s = t)"
| "py_eq (PList xs) (PList ys) = list_all2 py_eq xs ys"
| "py_eq PNone PNone = True"
| "py_eq a b = (case (py_num a, py_num b) of (Some x, Some y) \<Rightarrow> x = y | _ \<Rightarrow> False)"

text \<open>\<^verbatim>\<open>a in xs\<close> for a list \<^verbatim>\<open>xs\<close>.\<close>

definition py_in :: "pyval \<Rightarrow> pyval list \<Rightarrow> bool" where
  "py_in a xs = list_ex (\<lambda>x. py_eq x a) xs"

text \<open>Lists are the only unhashable values of the model.\<close>

fun hashable :: "pyval \<Rightarrow> bool" where
  "hashable (PList xs) = False"
| "hashable v = True"

subsection \<open>Built-ins of the language runtime\<close>

text \<open>
  The built-ins the engine calls are not part of the program. They are parameters of the
  model, and every theorem below holds for all of them:
  \<^item> \<^verbatim>\<open>str.upper\<close> and \<^verbatim>\<open>str.strip\<close>;
  \<^item> \<^verbatim>\<open>float(s)\<close> on a text, \<open>None\<close> where it raises \<^verbatim>\<open>ValueError\<close>;
  \<^item> \<^verbatim>\<open>float(i)\<close> on an integer (it rounds), \<open>None\<close> where it raises
    \<^verbatim>\<open>OverflowError\<close>;
  \<^item> \<^verbatim>\<open>json.loads(s)\<close> on a text that starts with a bracket: the elements of the decoded
    array, \<open>None\<close> where decoding raises.
\<close>

record runtime =
  str_upper :: "string \<Rightarrow> string"
  str_strip :: "string \<Rightarrow> string"
  str_to_float :: "string \<Rightarrow> real option"
  int_to_float :: "int \<Rightarrow> real option"
  json_loads :: "string \<Rightarrow> pyval list option"

text \<open>
  A small instance, used to run the model on concrete inputs: upper-casing and stripping of
  ASCII texts, exact conversion of integers, and no text accepted as a number or as an
  encoded list. The concrete inputs below are chosen so that no result depends on the
  choice.
\<close>

definition ascii_upper :: "char \<Rightarrow> char" where
  "ascii_upper c =
     (case map_of (zip ''abcdefghijklmnopqrstuvwxyz'' ''ABCDEFGHIJKLMNOPQRSTUVWXYZ'') c of
        Some u \<Rightarrow> u
      | None \<Rightarrow> c)"

definition ascii_space :: "char \<Rightarrow> bool" where
  "ascii_space c = (c \<in> set [CHR '' '', CHR 0x09, CHR 0x0A, CHR 0x0B, CHR 0x0C, CHR 0x0D])"

definition ascii_runtime :: runtime where
  "ascii_runtime =
     \<lparr> str_upper = map ascii_upper,
       str_strip = (\<lambda>s. rev (dropWhile ascii_space (rev (dropWhile ascii_space s)))),
       str_to_float = (\<lambda>s. None),
       int_to_float = (\<lambda>i. Some (of_int i)),
       json_loads = (\<lambda>s. None) \<rparr>"

text \<open>\<^verbatim>\<open>float(x)\<close>: lists and \<^verbatim>\<open>None\<close> raise \<^verbatim>\<open>TypeError\<close>.\<close>

fun py_float :: "runtime \<Rightarrow> pyval \<Rightarrow> pyerror + real" where
  "py_float rt (PFloat r) = Inr r"
| "py_float rt (PInt i) = (case int_to_float rt i of None \<Rightarrow> Inl OverflowError | Some r \<Rightarrow> Inr r)"
| "py_float rt (PBool b) = Inr (if b then 1 else 0)"
| "py_float rt (PStr s) = (case str_to_float rt s of None \<Rightarrow> Inl ValueError | Some r \<Rightarrow> Inr r)"
| "py_float rt (PList xs) = Inl TypeError"
| "py_float rt PNone = Inl TypeError"

section \<open>Condition evaluation\<close>

text \<open>The operator spellings outside ASCII, as UTF-8: \<^verbatim>\<open>e-acute\<close>, \<^verbatim>\<open>E-acute\<close>, and the
  signs for not-equal, less-or-equal and greater-or-equal.\<close>

definition op_e_acute :: string where "op_e_acute = [CHR 0xC3, CHR 0xA9]"
definition op_E_acute :: string where "op_E_acute = [CHR 0xC3, CHR 0x89]"
definition op_ne_sign :: string where "op_ne_sign = [CHR 0xE2, CHR 0x89, CHR 0xA0]"
definition op_le_sign :: string where "op_le_sign = [CHR 0xE2, CHR 0x89, CHR 0xA4]"
definition op_ge_sign :: string where "op_ge_sign = [CHR 0xE2, CHR 0x89, CHR 0xA5]"

definition eq_ops :: "string list" where
  "eq_ops = [''='', ''=='', op_e_acute, ''eh'', op_E_acute]"

definition ne_ops :: "string list" where
  "ne_ops = [''!='', op_ne_sign]"

definition lt_ops :: "string list" where
  "lt_ops = [''<'', op_le_sign, ''<='']"

definition gt_ops :: "string list" where
  "gt_ops = [''>'', op_ge_sign, ''>='']"

text \<open>The two-sided coercion \<^verbatim>\<open>float(a) ? float(b)\<close>; the first conversion that raises
  decides the error.\<close>

definition float_rel :: "runtime \<Rightarrow> (real \<Rightarrow> real \<Rightarrow> bool) \<Rightarrow> pyval \<Rightarrow> pyval \<Rightarrow> pyerror + bool" where
  "float_rel rt rel a b =
     (case py_float rt a of
        Inl e \<Rightarrow> Inl e
      | Inr x \<Rightarrow> (case py_float rt b of Inl e \<Rightarrow> Inl e | Inr y \<Rightarrow> Inr (rel x y)))"

text \<open>The body of the \<^verbatim>\<open>try\<close> block of \<^verbatim>\<open>_cmp\<close>: \<open>Inl\<close> is an exception that
  leaves the block.\<close>

definition cmp_try :: "runtime \<Rightarrow> pyval \<Rightarrow> string \<Rightarrow> pyval \<Rightarrow> pyerror + bool" where
  "cmp_try rt a opr b =
     (if opr \<in> set eq_ops then Inr (py_eq a b)
      else if opr \<in> set ne_ops then Inr (\<not> py_eq a b)
      else if opr \<in> set lt_ops then
        (if opr \<in> set [op_le_sign, ''<='']
         then float_rel rt (\<lambda>x y. x \<le> y) a b else float_rel rt (\<lambda>x y. x < y) a b)
      else if opr \<in> set gt_ops then
        (if opr \<in> set [op_ge_sign, ''>='']
         then float_rel rt (\<lambda>x y. x \<ge> y) a b else float_rel rt (\<lambda>x y. x > y) a b)
      else if str_upper rt opr = ''IN'' then
        (case b of
           PList ys \<Rightarrow> Inr (py_in a ys)
         | PStr s \<Rightarrow>
             (if take 1 (str_strip rt s) = ''[''
              then (case json_loads rt s of None \<Rightarrow> Inr False | Some ys \<Rightarrow> Inr (py_in a ys))
              else Inr False)
         | _ \<Rightarrow> Inr False)
      else Inr False)"

text \<open>\<^verbatim>\<open>_cmp\<close>: the \<^verbatim>\<open>except Exception\<close> clause turns every exception of the body
  into \<open>False\<close>.\<close>

definition cmp :: "runtime \<Rightarrow> pyval \<Rightarrow> string \<Rightarrow> pyval \<Rightarrow> bool" where
  "cmp rt a opr b = (case cmp_try rt a opr b of Inr r \<Rightarrow> r | Inl e \<Rightarrow> False)"

section \<open>The knowledge base\<close>

text \<open>A condition and a conclusion are both dictionaries with the keys
  \<^verbatim>\<open>attr\<close>, \<^verbatim>\<open>op\<close> and \<^verbatim>\<open>value\<close>.\<close>

record Condition =
  c_attr :: string
  c_op :: string
  c_value :: pyval

type_synonym Conclusion = Condition

record Rule =
  r_id :: int
  r_conditions :: "Condition list"
  r_conclusion :: Conclusion
  r_text :: string

record Fact =
  attr :: string
  val :: pyval

record Justification =
  j_fact :: Fact
  j_rule_id :: "int option"
  j_premises :: "Fact list"
  j_note :: string

record KnowledgeBase =
  facts :: "string \<rightharpoonup> pyval"
  rules :: "Rule list"
  justifications :: "string \<rightharpoonup> Justification"
  next_rule_id :: int
  attributes :: "string set"
  cond_attrs :: "string set"
  concl_attrs :: "string set"

definition init_kb :: KnowledgeBase where
  "init_kb = \<lparr> facts = Map.empty, rules = [], justifications = Map.empty, next_rule_id = 1,
               attributes = {}, cond_attrs = {}, concl_attrs = {} \<rparr>"

subsection \<open>Attribute catalogs\<close>

datatype place = AnyPlace | CondPlace | ConclPlace

definition touch_attribute :: "runtime \<Rightarrow> string \<Rightarrow> place \<Rightarrow> KnowledgeBase \<Rightarrow> KnowledgeBase" where
  "touch_attribute rt a0 w kb =
     (if str_strip rt a0 \<noteq> [] then
        (let a = str_strip rt a0; kb1 = kb\<lparr>attributes := insert a (attributes kb)\<rparr> in
           (case w of
              CondPlace \<Rightarrow> kb1\<lparr>cond_attrs := insert a (cond_attrs kb1)\<rparr>
            | ConclPlace \<Rightarrow> kb1\<lparr>concl_attrs := insert a (concl_attrs kb1)\<rparr>
            | AnyPlace \<Rightarrow> kb1))
      else kb)"

definition extract_attributes_from_rule :: "runtime \<Rightarrow> Rule \<Rightarrow> KnowledgeBase \<Rightarrow> KnowledgeBase" where
  "extract_attributes_from_rule rt r kb =
     touch_attribute rt (c_attr (r_conclusion r)) ConclPlace
       (foldl (\<lambda>k c. touch_attribute rt (c_attr c) CondPlace k) kb (r_conditions r))"

definition rebuild_attributes :: "runtime \<Rightarrow> KnowledgeBase \<Rightarrow> KnowledgeBase" where
  "rebuild_attributes rt kb =
     foldl (\<lambda>k r. extract_attributes_from_rule rt r k)
       (kb\<lparr>attributes := {}, cond_attrs := {}, concl_attrs := {}\<rparr>) (rules kb)"

subsection \<open>Facts and rules\<close>

definition add_fact :: "KnowledgeBase \<Rightarrow> string \<Rightarrow> pyval \<Rightarrow> string \<Rightarrow> KnowledgeBase" where
  "add_fact kb a v nt =
     kb\<lparr> facts := (facts kb)(a \<mapsto> v),
         justifications := (justifications kb)(a \<mapsto>
           \<lparr> j_fact = \<lparr>attr = a, val = v\<rparr>, j_rule_id = None, j_premises = [], j_note = nt \<rparr>) \<rparr>"

definition has_fact :: "KnowledgeBase \<Rightarrow> string \<Rightarrow> pyval \<Rightarrow> bool" where
  "has_fact kb a v =
     (case facts kb a of
        None \<Rightarrow> False
      | Some x \<Rightarrow> (if v = PNone then True else py_eq x v))"

text \<open>The removal of a fact, as the menu's handler does it.\<close>

definition remove_fact :: "KnowledgeBase \<Rightarrow> string \<Rightarrow> KnowledgeBase" where
  "remove_fact kb a =
     kb\<lparr> facts := (facts kb)(a := None), justifications := (justifications kb)(a := None) \<rparr>"

definition add_rule :: "runtime \<Rightarrow> KnowledgeBase \<Rightarrow> Condition list \<Rightarrow> Conclusion \<Rightarrow> string \<Rightarrow> int \<times> KnowledgeBase" where
  "add_rule rt kb conds concl txt =
     (let rid = next_rule_id kb;
          r = \<lparr> r_id = rid, r_conditions = conds, r_conclusion = concl, r_text = txt \<rparr>;
          kb1 = kb\<lparr> next_rule_id := next_rule_id kb + 1, rules := rules kb @ [r] \<rparr>
      in (rid, extract_attributes_from_rule rt r kb1))"

definition remove_rule :: "runtime \<Rightarrow> KnowledgeBase \<Rightarrow> int \<Rightarrow> bool \<times> KnowledgeBase" where
  "remove_rule rt kb rid =
     (let n = length (rules kb);
          kb1 = kb\<lparr> rules := filter (\<lambda>r. r_id r \<noteq> rid) (rules kb) \<rparr>
      in if length (rules kb1) < n then (True, rebuild_attributes rt kb1) else (False, kb1))"

subsection \<open>Conjunction of conditions\<close>

fun conditions_loop :: "runtime \<Rightarrow> KnowledgeBase \<Rightarrow> Condition list \<Rightarrow> Fact list \<Rightarrow> bool \<times> Fact list" where
  "conditions_loop rt kb [] used = (True, used)"
| "conditions_loop rt kb (c # cs) used =
     (case facts kb (c_attr c) of
        None \<Rightarrow> (False, [])
      | Some x \<Rightarrow>
          (if \<not> cmp rt x (c_op c) (c_value c) then (False, [])
           else conditions_loop rt kb cs (used @ [\<lparr>attr = c_attr c, val = x\<rparr>])))"

definition conditions_hold :: "runtime \<Rightarrow> KnowledgeBase \<Rightarrow> Condition list \<Rightarrow> bool \<times> Fact list" where
  "conditions_hold rt kb conds = conditions_loop rt kb conds []"

section \<open>Forward chaining\<close>

text \<open>Decimal digits of an integer, for the provenance tag \<^verbatim>\<open>forward (it=k)\<close>.\<close>

fun str_nat :: "nat \<Rightarrow> string" where
  "str_nat n =
     (if n < 10 then [''0123456789'' ! n]
      else str_nat (n div 10) @ [''0123456789'' ! (n mod 10)])"

declare str_nat.simps [simp del]

definition str_int :: "int \<Rightarrow> string" where
  "str_int i = (if i < 0 then ''-'' @ str_nat (nat (- i)) else str_nat (nat i))"

text \<open>One pass over the rules, in order, on the live store: the store, the list of inferred
  facts and the flag \<^verbatim>\<open>new_any\<close> are threaded through.\<close>

fun forward_scan :: "runtime \<Rightarrow> int \<Rightarrow> Rule list \<Rightarrow> KnowledgeBase \<Rightarrow> Fact list \<Rightarrow> bool
    \<Rightarrow> KnowledgeBase \<times> Fact list \<times> bool" where
  "forward_scan rt it [] kb inferred new_any = (kb, inferred, new_any)"
| "forward_scan rt it (r # rs) kb inferred new_any =
     (case conditions_hold rt kb (r_conditions r) of
        (False, used) \<Rightarrow> forward_scan rt it rs kb inferred new_any
      | (True, used) \<Rightarrow>
          (let a = c_attr (r_conclusion r); v = c_value (r_conclusion r) in
             if has_fact kb a v then forward_scan rt it rs kb inferred new_any
             else forward_scan rt it rs
               (kb\<lparr> facts := (facts kb)(a \<mapsto> v),
                    justifications := (justifications kb)(a \<mapsto>
                      \<lparr> j_fact = \<lparr>attr = a, val = v\<rparr>, j_rule_id = Some (r_id r),
                        j_premises = used,
                        j_note = ''forward (it='' @ str_int it @ '')'' \<rparr>) \<rparr>)
               (inferred @ [\<lparr>attr = a, val = v\<rparr>]) True))"

text \<open>The \<^verbatim>\<open>while\<close> loop; it returns its whole final state.\<close>

function forward_loop :: "runtime \<Rightarrow> int \<Rightarrow> KnowledgeBase \<Rightarrow> Fact list \<Rightarrow> int \<Rightarrow> bool
    \<Rightarrow> KnowledgeBase \<times> Fact list \<times> int \<times> bool" where
  "forward_loop rt max_iterations kb inferred it new_any =
     (if new_any \<and> it < max_iterations then
        (case forward_scan rt (it + 1) (rules kb) kb inferred False of
           (kb', inferred', new_any') \<Rightarrow>
             forward_loop rt max_iterations kb' inferred' (it + 1) new_any')
      else (kb, inferred, it, new_any))"
  by pat_completeness auto
termination
  by (relation "measure (\<lambda>(rt, m, kb, inferred, it, new_any). nat (m - it))") auto

declare forward_loop.simps [simp del]

text \<open>\<^verbatim>\<open>forward_chain\<close> returns the inferred facts; the store it leaves is the second
  component.\<close>

definition forward_chain :: "runtime \<Rightarrow> KnowledgeBase \<Rightarrow> int \<Rightarrow> Fact list \<times> KnowledgeBase" where
  "forward_chain rt kb max_iterations =
     (case forward_loop rt max_iterations kb [] 0 True of
        (kb', inferred, it, new_any) \<Rightarrow> (inferred, kb'))"

section \<open>Backward chaining\<close>

text \<open>The visited set holds pairs of an attribute and a value; membership compares the
  value with \<^verbatim>\<open>==\<close>.\<close>

type_synonym visited = "(string \<times> pyval) list"

definition in_visited :: "string \<times> pyval \<Rightarrow> visited \<Rightarrow> bool" where
  "in_visited g vis = list_ex (\<lambda>p. fst p = fst g \<and> py_eq (snd p) (snd g)) vis"

datatype outcome = Returned bool | Raised pyerror

datatype premises_result = PremisesOk "Fact list" | PremisesFail | PremisesRaised pyerror

text \<open>A prover takes the store, the goal and the visited set, and gives the outcome with
  the store and the visited set it leaves; \<open>None\<close> stands for a call that does not return
  within the recursion depth allowed.\<close>

type_synonym prover =
  "KnowledgeBase \<Rightarrow> string \<Rightarrow> pyval \<Rightarrow> visited \<Rightarrow> (outcome \<times> KnowledgeBase \<times> visited) option"

text \<open>The loop over the conditions of one candidate rule; \<open>rec\<close> is the recursive call.\<close>

fun prove_conditions :: "runtime \<Rightarrow> prover \<Rightarrow> Condition list \<Rightarrow> Fact list \<Rightarrow> KnowledgeBase
    \<Rightarrow> visited \<Rightarrow> (premises_result \<times> KnowledgeBase \<times> visited) option" where
  "prove_conditions rt rec [] used kb vis = Some (PremisesOk used, kb, vis)"
| "prove_conditions rt rec (c # cs) used kb vis =
     (case facts kb (c_attr c) of
        Some x \<Rightarrow>
          (if \<not> cmp rt x (c_op c) (c_value c) then Some (PremisesFail, kb, vis)
           else prove_conditions rt rec cs (used @ [\<lparr>attr = c_attr c, val = x\<rparr>]) kb vis)
      | None \<Rightarrow>
          (if c_op c \<in> set eq_ops then
             (case rec kb (c_attr c) (c_value c) vis of
                None \<Rightarrow> None
              | Some (Raised e, kb', vis') \<Rightarrow> Some (PremisesRaised e, kb', vis')
              | Some (Returned True, kb', vis') \<Rightarrow>
                  prove_conditions rt rec cs
                    (used @ [\<lparr>attr = c_attr c,
                              val = (case facts kb' (c_attr c) of Some y \<Rightarrow> y | None \<Rightarrow> c_value c)\<rparr>])
                    kb' vis'
              | Some (Returned False, kb', vis') \<Rightarrow> Some (PremisesFail, kb', vis'))
           else Some (PremisesFail, kb, vis)))"

text \<open>The loop over the candidate rules: the first one whose premises all hold asserts the
  goal.\<close>

fun try_candidates :: "runtime \<Rightarrow> prover \<Rightarrow> string \<Rightarrow> pyval \<Rightarrow> Rule list \<Rightarrow> KnowledgeBase
    \<Rightarrow> visited \<Rightarrow> (outcome \<times> KnowledgeBase \<times> visited) option" where
  "try_candidates rt rec goal_attr goal_val [] kb vis = Some (Returned False, kb, vis)"
| "try_candidates rt rec goal_attr goal_val (r # rs) kb vis =
     (case prove_conditions rt rec (r_conditions r) [] kb vis of
        None \<Rightarrow> None
      | Some (PremisesRaised e, kb', vis') \<Rightarrow> Some (Raised e, kb', vis')
      | Some (PremisesOk used, kb', vis') \<Rightarrow>
          Some (Returned True,
                kb'\<lparr> facts := (facts kb')(goal_attr \<mapsto> goal_val),
                     justifications := (justifications kb')(goal_attr \<mapsto>
                       \<lparr> j_fact = \<lparr>attr = goal_attr, val = goal_val\<rparr>, j_rule_id = Some (r_id r),
                         j_premises = used, j_note = ''backward'' \<rparr>) \<rparr>,
                vis')
      | Some (PremisesFail, kb', vis') \<Rightarrow> try_candidates rt rec goal_attr goal_val rs kb' vis')"

definition candidates :: "KnowledgeBase \<Rightarrow> string \<Rightarrow> pyval \<Rightarrow> Rule list" where
  "candidates kb goal_attr goal_val =
     filter (\<lambda>r. c_attr (r_conclusion r) = goal_attr \<and> py_eq (c_value (r_conclusion r)) goal_val)
       (rules kb)"

text \<open>
  The recursive prover, with its recursion depth bounded by the first argument. Testing the
  pair against the visited set hashes it, which raises \<^verbatim>\<open>TypeError\<close> on a list value.
\<close>

primrec prove_depth :: "nat \<Rightarrow> runtime \<Rightarrow> prover" where
  "prove_depth 0 rt = (\<lambda>kb goal_attr goal_val vis. None)"
| "prove_depth (Suc n) rt = (\<lambda>kb goal_attr goal_val vis.
     if \<not> hashable goal_val then Some (Raised TypeError, kb, vis)
     else if in_visited (goal_attr, goal_val) vis then Some (Returned False, kb, vis)
     else if has_fact kb goal_attr goal_val
       then Some (Returned True, kb, (goal_attr, goal_val) # vis)
     else try_candidates rt (prove_depth n rt) goal_attr goal_val
            (candidates kb goal_attr goal_val) kb ((goal_attr, goal_val) # vis))"

text \<open>The sub-goals a proof can meet: the pairs of attribute and operand of all conditions
  of all rules.\<close>

definition subgoals :: "Rule list \<Rightarrow> (string \<times> pyval) list" where
  "subgoals rs = concat (map (\<lambda>r. map (\<lambda>c. (c_attr c, c_value c)) (r_conditions r)) rs)"

text \<open>
  \<^verbatim>\<open>backward_prove\<close> called with no visited set. The depth allowed is two more than the
  number of sub-goals, which is shown below to be enough for every store and goal.
\<close>

definition backward_prove :: "runtime \<Rightarrow> KnowledgeBase \<Rightarrow> string \<Rightarrow> pyval
    \<Rightarrow> (outcome \<times> KnowledgeBase \<times> visited) option" where
  "backward_prove rt kb goal_attr goal_val =
     prove_depth (Suc (Suc (length (subgoals (rules kb))))) rt kb goal_attr goal_val []"

section \<open>Snapshots\<close>

record Snapshot =
  s_facts :: "string \<rightharpoonup> pyval"
  s_justifications :: "string \<rightharpoonup> Justification"
  s_rules :: "Rule list"
  s_next_rule_id :: int
  s_attributes :: "string set"
  s_cond_attrs :: "string set"
  s_concl_attrs :: "string set"

definition copy_fact :: "Fact \<Rightarrow> Fact" where
  "copy_fact f = \<lparr>attr = attr f, val = val f\<rparr>"

definition copy_justification :: "Justification \<Rightarrow> Justification" where
  "copy_justification j =
     \<lparr> j_fact = copy_fact (j_fact j), j_rule_id = j_rule_id j,
       j_premises = map copy_fact (j_premises j), j_note = j_note j \<rparr>"

definition copy_rule :: "Rule \<Rightarrow> Rule" where
  "copy_rule r =
     \<lparr> r_id = r_id r, r_conditions = r_conditions r, r_conclusion = r_conclusion r,
       r_text = r_text r \<rparr>"

definition snapshot_kb :: "KnowledgeBase \<Rightarrow> Snapshot" where
  "snapshot_kb kb =
     \<lparr> s_facts = facts kb,
       s_justifications = (\<lambda>k. map_option copy_justification (justifications kb k)),
       s_rules = map copy_rule (rules kb),
       s_next_rule_id = next_rule_id kb,
       s_attributes = attributes kb,
       s_cond_attrs = cond_attrs kb,
       s_concl_attrs = concl_attrs kb \<rparr>"

definition restore_kb :: "KnowledgeBase \<Rightarrow> Snapshot \<Rightarrow> KnowledgeBase" where
  "restore_kb kb snap =
     kb\<lparr> facts := s_facts snap,
         justifications := s_justifications snap,
         rules := map copy_rule (s_rules snap),
         next_rule_id := s_next_rule_id snap,
         attributes := s_attributes snap,
         cond_attrs := s_cond_attrs snap,
         concl_attrs := s_concl_attrs snap \<rparr>"

section \<open>Loading\<close>

text \<open>The persisted structure. \<^verbatim>\<open>load_json\<close> reads a rule's \<^verbatim>\<open>id\<close> first with a default
  and then without one, and its \<^verbatim>\<open>text\<close> with a default, so both may be absent.\<close>

record json_rule =
  jr_id :: "int option"
  jr_conditions :: "Condition list"
  jr_conclusion :: Conclusion
  jr_text :: "string option"

record json_kb =
  jk_facts :: "(string \<times> pyval) list"
  jk_rules :: "json_rule list"

fun load_rules :: "json_rule list \<Rightarrow> KnowledgeBase \<Rightarrow> pyerror option \<times> KnowledgeBase" where
  "load_rules [] kb = (None, kb)"
| "load_rules (r # rs) kb =
     (let kb1 = kb\<lparr> next_rule_id :=
                  max (next_rule_id kb) ((case jr_id r of None \<Rightarrow> 0 | Some i \<Rightarrow> i) + 1) \<rparr>
      in case jr_id r of
           None \<Rightarrow> (Some KeyError, kb1)
         | Some i \<Rightarrow>
             load_rules rs
               (kb1\<lparr> rules := rules kb1 @
                  [\<lparr> r_id = i, r_conditions = jr_conditions r, r_conclusion = jr_conclusion r,
                     r_text = (case jr_text r of None \<Rightarrow> [] | Some t \<Rightarrow> t) \<rparr>] \<rparr>))"

text \<open>\<^verbatim>\<open>load_json\<close> resets the store first, so its result does not depend on the store
  it is called on. The first component is the exception that ended the load, if any.\<close>

definition load_json :: "runtime \<Rightarrow> json_kb \<Rightarrow> pyerror option \<times> KnowledgeBase" where
  "load_json rt obj =
     (case load_rules (jk_rules obj)
             (foldl (\<lambda>k f. add_fact k (fst f) (snd f) ''base'') init_kb (jk_facts obj)) of
        (Some e, kb) \<Rightarrow> (Some e, kb)
      | (None, kb) \<Rightarrow> (None, rebuild_attributes rt kb))"

text \<open>A sequence of \<^verbatim>\<open>add_rule\<close> calls: the ids handed out, and the store left.\<close>

fun add_rules :: "runtime \<Rightarrow> KnowledgeBase \<Rightarrow> (Condition list \<times> Conclusion \<times> string) list
    \<Rightarrow> int list \<times> KnowledgeBase" where
  "add_rules rt kb [] = ([], kb)"
| "add_rules rt kb ((conds, concl, txt) # xs) =
     (case add_rule rt kb conds concl txt of
        (rid, kb1) \<Rightarrow> (case add_rules rt kb1 xs of (rids, kb2) \<Rightarrow> (rid # rids, kb2)))"

section \<open>Notions used in the statements\<close>

text \<open>A condition holds when its attribute has a fact and the predicate accepts the stored
  value; the fact consulted for it is the stored one.\<close>

definition condition_holds :: "runtime \<Rightarrow> KnowledgeBase \<Rightarrow> Condition \<Rightarrow> bool" where
  "condition_holds rt kb c =
     (case facts kb (c_attr c) of None \<Rightarrow> False | Some x \<Rightarrow> cmp rt x (c_op c) (c_value c))"

definition consulted :: "KnowledgeBase \<Rightarrow> Condition \<Rightarrow> Fact" where
  "consulted kb c = \<lparr>attr = c_attr c, val = (case facts kb (c_attr c) of Some x \<Rightarrow> x | None \<Rightarrow> PNone)\<rparr>"

text \<open>A rule fires in a forward pass when its conditions hold and its conclusion is not
  already a known fact.\<close>

definition fires :: "runtime \<Rightarrow> KnowledgeBase \<Rightarrow> Rule \<Rightarrow> bool" where
  "fires rt kb r = (fst (conditions_hold rt kb (r_conditions r)) \<and>
      \<not> has_fact kb (c_attr (r_conclusion r)) (c_value (r_conclusion r)))"

text \<open>An attribute with value \<open>v\<close> is settled when every rule concluding that attribute
  concludes \<^verbatim>\<open>None\<close> or a value equal to \<open>v\<close>: no rule can then overwrite it.\<close>

definition settled :: "Rule list \<Rightarrow> string \<Rightarrow> pyval \<Rightarrow> bool" where
  "settled rs a v = (\<forall>r\<in>set rs. c_attr (r_conclusion r) = a \<longrightarrow>
      c_value (r_conclusion r) = PNone \<or> py_eq v (c_value (r_conclusion r)))"

text \<open>What the chaining engines never touch: the rules, the rule-id counter and the catalogs.\<close>

definition frame :: "KnowledgeBase \<Rightarrow> KnowledgeBase \<Rightarrow> bool" where
  "frame kb kb' = (rules kb' = rules kb \<and> next_rule_id kb' = next_rule_id kb \<and>
     attributes kb' = attributes kb \<and> cond_attrs kb' = cond_attrs kb \<and> concl_attrs kb' = concl_attrs kb)"

text \<open>The facts and the justifications have the same keys.\<close>

definition key_inv :: "KnowledgeBase \<Rightarrow> bool" where
  "key_inv kb = (dom (facts kb) = dom (justifications kb))"

text \<open>Outside the attributes of \<open>A\<close>, every attribute with a fact in the first store has the
  same fact and the same justification in the second.\<close>

definition keeps_except :: "string set \<Rightarrow> KnowledgeBase \<Rightarrow> KnowledgeBase \<Rightarrow> bool" where
  "keeps_except A kb kb' = (\<forall>x. x \<notin> A \<longrightarrow> facts kb x \<noteq> None \<longrightarrow>
      facts kb' x = facts kb x \<and> justifications kb' x = justifications kb x)"

text \<open>What a call of the prover guarantees about the state it leaves, whatever its outcome:
  only the goal attribute of a successful call may be overwritten.\<close>

definition bp_post :: "KnowledgeBase \<Rightarrow> string \<Rightarrow> visited \<Rightarrow> outcome \<times> KnowledgeBase \<times> visited \<Rightarrow> bool" where
  "bp_post kb a vis res = (case res of (out, kb', vis') \<Rightarrow>
      frame kb kb' \<and> set vis \<subseteq> set vis' \<and> (key_inv kb \<longrightarrow> key_inv kb') \<and>
      keeps_except (if out = Returned True then {a} else {}) kb kb')"

definition sound_prover :: "prover \<Rightarrow> bool" where
  "sound_prover rec = (\<forall>kb a v vis res. rec kb a v vis = Some res \<longrightarrow> bp_post kb a vis res)"

text \<open>The number of sub-goals not yet in the visited set bounds the depth of the recursion.\<close>

definition unvisited :: "(string \<times> pyval) list \<Rightarrow> visited \<Rightarrow> nat" where
  "unvisited L vis = length (filter (\<lambda>p. \<not> in_visited p vis) L)"

definition total_prover :: "Rule list \<Rightarrow> nat \<Rightarrow> prover \<Rightarrow> bool" where
  "total_prover rs k rec = (\<forall>kb a v vis. rules kb = rs \<longrightarrow> (a, v) \<in> set (subgoals rs) \<longrightarrow>
      unvisited (subgoals rs) vis \<le> k \<longrightarrow> rec kb a v vis \<noteq> None)"

definition le_prover :: "prover \<Rightarrow> prover \<Rightarrow> bool" where
  "le_prover rec rec' = (\<forall>kb a v vis res. rec kb a v vis = Some res \<longrightarrow> rec' kb a v vis = Some res)"

text \<open>Every rule id is below the counter.\<close>

definition ids_below :: "KnowledgeBase \<Rightarrow> bool" where
  "ids_below kb = (\<forall>r\<in>set (rules kb). r_id r < next_rule_id kb)"

text \<open>The mutating operations of the menu, each preceded there by a snapshot.\<close>

datatype mutation =
    AddFact string pyval
  | RemoveFact string
  | AddRule "Condition list" Conclusion string
  | RemoveRule int
  | ForwardRun int
  | BackwardRun string pyval
  | Load json_kb

fun apply_mutation :: "runtime \<Rightarrow> mutation \<Rightarrow> KnowledgeBase \<Rightarrow> KnowledgeBase" where
  "apply_mutation rt (AddFact a v) kb = add_fact kb a v ''base''"
| "apply_mutation rt (RemoveFact a) kb = remove_fact kb a"
| "apply_mutation rt (AddRule conds concl txt) kb = snd (add_rule rt kb conds concl txt)"
| "apply_mutation rt (RemoveRule rid) kb = snd (remove_rule rt kb rid)"
| "apply_mutation rt (ForwardRun m) kb = snd (forward_chain rt kb m)"
| "apply_mutation rt (BackwardRun a v) kb =
     (case backward_prove rt kb a v of Some (out, kb', vis) \<Rightarrow> kb' | None \<Rightarrow> kb)"
| "apply_mutation rt (Load obj) kb = snd (load_json rt obj)"

subsection \<open>Example stores\<close>

text \<open>One rule \<^verbatim>\<open>SE Temperatura > 38.0 ENTAO Febre = Sim\<close>, with the temperature known and
  \<^verbatim>\<open>Febre\<close> already asserted as \<^verbatim>\<open>Nao\<close>.\<close>

definition kb_fever :: KnowledgeBase where
  "kb_fever =
     \<lparr> facts = [''Temperatura'' \<mapsto> PFloat 39.2, ''Febre'' \<mapsto> PStr ''Nao''],
       rules = [\<lparr> r_id = 1,
                  r_conditions = [\<lparr>c_attr = ''Temperatura'', c_op = ''>'', c_value = PFloat 38.0\<rparr>],
                  r_conclusion = \<lparr>c_attr = ''Febre'', c_op = ''='', c_value = PStr ''Sim''\<rparr>,
                  r_text = ''SE Temperatura > 38.0 ENTAO Febre = Sim'' \<rparr>],
       justifications =
         [''Temperatura'' \<mapsto> \<lparr> j_fact = \<lparr>attr = ''Temperatura'', val = PFloat 39.2\<rparr>,
              j_rule_id = None, j_premises = [], j_note = ''base'' \<rparr>,
          ''Febre'' \<mapsto> \<lparr> j_fact = \<lparr>attr = ''Febre'', val = PStr ''Nao''\<rparr>,
              j_rule_id = None, j_premises = [], j_note = ''base'' \<rparr>],
       next_rule_id = 2,
       attributes = {''Temperatura'', ''Febre''},
       cond_attrs = {''Temperatura''},
       concl_attrs = {''Febre''} \<rparr>"

text \<open>Two rules with the same condition that conclude different values for one attribute.\<close>

definition kb_flip :: KnowledgeBase where
  "kb_flip =
     \<lparr> facts = [''A'' \<mapsto> PInt 1],
       rules = [\<lparr> r_id = 1,
                  r_conditions = [\<lparr>c_attr = ''A'', c_op = ''='', c_value = PInt 1\<rparr>],
                  r_conclusion = \<lparr>c_attr = ''B'', c_op = ''='', c_value = PInt 1\<rparr>,
                  r_text = ''SE A = 1 ENTAO B = 1'' \<rparr>,
                \<lparr> r_id = 2,
                  r_conditions = [\<lparr>c_attr = ''A'', c_op = ''='', c_value = PInt 1\<rparr>],
                  r_conclusion = \<lparr>c_attr = ''B'', c_op = ''='', c_value = PInt 2\<rparr>,
                  r_text = ''SE A = 1 ENTAO B = 2'' \<rparr>],
       justifications =
         [''A'' \<mapsto> \<lparr> j_fact = \<lparr>attr = ''A'', val = PInt 1\<rparr>,
              j_rule_id = None, j_premises = [], j_note = ''base'' \<rparr>],
       next_rule_id = 3,
       attributes = {''A'', ''B''},
       cond_attrs = {''A''},
       concl_attrs = {''B''} \<rparr>"


text \<open>Two mutually dependent rules and no fact.\<close>

definition kb_cycle :: KnowledgeBase where
  "kb_cycle =
     \<lparr> facts = Map.empty,
       rules = [\<lparr> r_id = 1,
                  r_conditions = [\<lparr>c_attr = ''Y'', c_op = ''='', c_value = PInt 1\<rparr>],
                  r_conclusion = \<lparr>c_attr = ''X'', c_op = ''='', c_value = PInt 1\<rparr>,
                  r_text = ''SE Y = 1 ENTAO X = 1'' \<rparr>,
                \<lparr> r_id = 2,
                  r_conditions = [\<lparr>c_attr = ''X'', c_op = ''='', c_value = PInt 1\<rparr>],
                  r_conclusion = \<lparr>c_attr = ''Y'', c_op = ''='', c_value = PInt 1\<rparr>,
                  r_text = ''SE X = 1 ENTAO Y = 1'' \<rparr>],
       justifications = Map.empty,
       next_rule_id = 3,
       attributes = {''X'', ''Y''},
       cond_attrs = {''X'', ''Y''},
       concl_attrs = {''X'', ''Y''} \<rparr>"

text \<open>A persisted structure with one fact and two rules whose ids are 7 and 3.\<close>

definition json_two_rules :: json_kb where
  "json_two_rules =
     \<lparr> jk_facts = [(''A'', PInt 1)],
       jk_rules =
         [\<lparr> jr_id = Some 7, jr_conditions = [\<lparr>c_attr = ''A'', c_op = ''='', c_value = PInt 1\<rparr>],
            jr_conclusion = \<lparr>c_attr = ''B'', c_op = ''='', c_value = PInt 1\<rparr>,
            jr_text = Some ''SE A = 1 ENTAO B = 1'' \<rparr>,
          \<lparr> jr_id = Some 3, jr_conditions = [\<lparr>c_attr = ''B'', c_op = ''='', c_value = PInt 1\<rparr>],
            jr_conclusion = \<lparr>c_attr = ''C'', c_op = ''='', c_value = PInt 1\<rparr>,
            jr_text = None \<rparr>] \<rparr>"

section \<open>Evaluation of concrete inputs\<close>

lemmas op_defs = eq_ops_def ne_ops_def lt_ops_def gt_ops_def
  op_e_acute_def op_E_acute_def op_ne_sign_def op_le_sign_def op_ge_sign_def

lemmas eval_defs = cmp_def cmp_try_def float_rel_def op_defs conditions_hold_def has_fact_def
  forward_chain_def str_int_def in_visited_def candidates_def backward_prove_def subgoals_def Let_def

section \<open>Properties of values and of the visited set\<close>

lemma py_eq_refl: "py_eq v v"
proof (induction v)
  case (PList xs)
  then show ?case by (simp add: list_all2_same)
qed simp_all

lemma in_visited_mono: "set vis \<subseteq> set vis' \<Longrightarrow> in_visited p vis \<Longrightarrow> in_visited p vis'"
  by (auto simp: in_visited_def list_ex_iff)

lemma length_filter_mono:
  "(\<And>x. x \<in> set xs \<Longrightarrow> P x \<Longrightarrow> Q x) \<Longrightarrow> length (filter P xs) \<le> length (filter Q xs)"
  by (induction xs) auto

lemma unvisited_mono: "set vis \<subseteq> set vis' \<Longrightarrow> unvisited L vis' \<le> unvisited L vis"
  unfolding unvisited_def by (rule length_filter_mono) (auto dest: in_visited_mono)

lemma length_filter_strict:
  "(\<And>x. x \<in> set xs \<Longrightarrow> P x \<Longrightarrow> Q x) \<Longrightarrow> g \<in> set xs \<Longrightarrow> Q g \<Longrightarrow> \<not> P g \<Longrightarrow>
     length (filter P xs) < length (filter Q xs)"
proof (induction xs)
  case Nil
  then show ?case by simp
next
  case (Cons x xs)
  show ?case
  proof (cases "x = g")
    case True
    have "length (filter P xs) \<le> length (filter Q xs)"
      using Cons.prems(1) by (intro length_filter_mono) auto
    with True Cons.prems show ?thesis by simp
  next
    case False
    with Cons.prems have "g \<in> set xs" by simp
    with Cons.IH Cons.prems have "length (filter P xs) < length (filter Q xs)" by simp
    moreover have "P x \<Longrightarrow> Q x" using Cons.prems(1) by simp
    ultimately show ?thesis by auto
  qed
qed

lemma unvisited_less:
  "g \<in> set L \<Longrightarrow> \<not> in_visited g vis \<Longrightarrow> unvisited L (g # vis) < unvisited L vis"
  unfolding unvisited_def
  by (rule length_filter_strict[where g = g]) (auto simp: in_visited_def py_eq_refl)

lemma unvisited_le_length: "unvisited L vis \<le> length L"
  by (simp add: unvisited_def)

lemma subgoals_member:
  "r \<in> set rs \<Longrightarrow> c \<in> set (r_conditions r) \<Longrightarrow> (c_attr c, c_value c) \<in> set (subgoals rs)"
  by (auto simp: subgoals_def)

lemma candidates_subset: "set (candidates kb a v) \<subseteq> set (rules kb)"
  by (simp add: candidates_def)

section \<open>The condition evaluator\<close>

lemma cmp_caught: "cmp rt a opr b = (cmp_try rt a opr b = Inr True)"
  by (auto simp: cmp_def split: sum.splits)

lemma conditions_loop_spec:
  "conditions_loop rt kb cs used =
     (if \<forall>c\<in>set cs. condition_holds rt kb c then (True, used @ map (consulted kb) cs) else (False, []))"
  by (induction cs arbitrary: used) (auto simp: condition_holds_def consulted_def split: option.splits)

section \<open>Invariants of the backward prover\<close>

text \<open>The loops are proved correct for any recursive prover that keeps the guarantee; the
  prover of depth \<open>n\<close> then keeps it by induction on \<open>n\<close>.\<close>

lemma frame_refl [simp]: "frame kb kb" by (simp add: frame_def)
lemma frame_trans: "frame a b \<Longrightarrow> frame b c \<Longrightarrow> frame a c" by (simp add: frame_def)
lemma keeps_refl [simp]: "keeps_except A kb kb" by (simp add: keeps_except_def)
lemma keeps_trans: "keeps_except A a b \<Longrightarrow> keeps_except {} b c \<Longrightarrow> keeps_except A a c"
  by (auto simp: keeps_except_def)
lemma keeps_trans2: "keeps_except {} a b \<Longrightarrow> keeps_except A b c \<Longrightarrow> keeps_except A a c"
  unfolding keeps_except_def by (metis empty_iff)
lemma keeps_unknown: "keeps_except {x} kb kb' \<Longrightarrow> facts kb x = None \<Longrightarrow> keeps_except {} kb kb'"
  unfolding keeps_except_def by (metis insert_iff)
lemma key_inv_assert:
  "key_inv kb \<Longrightarrow> key_inv (kb\<lparr>facts := (facts kb)(a \<mapsto> v), justifications := (justifications kb)(a \<mapsto> j)\<rparr>)"
  by (auto simp: key_inv_def)

lemma assert_post:
  assumes "frame kb kb1" "key_inv kb \<longrightarrow> key_inv kb1" "keeps_except {} kb kb1"
  shows "frame kb (kb1\<lparr>facts := (facts kb1)(a \<mapsto> v), justifications := (justifications kb1)(a \<mapsto> j)\<rparr>)
     \<and> (key_inv kb \<longrightarrow> key_inv (kb1\<lparr>facts := (facts kb1)(a \<mapsto> v), justifications := (justifications kb1)(a \<mapsto> j)\<rparr>))
     \<and> keeps_except {a} kb (kb1\<lparr>facts := (facts kb1)(a \<mapsto> v), justifications := (justifications kb1)(a \<mapsto> j)\<rparr>)"
proof (intro conjI)
  show "frame kb (kb1\<lparr>facts := (facts kb1)(a \<mapsto> v), justifications := (justifications kb1)(a \<mapsto> j)\<rparr>)"
    using assms(1) by (simp add: frame_def)
  show "key_inv kb \<longrightarrow> key_inv (kb1\<lparr>facts := (facts kb1)(a \<mapsto> v), justifications := (justifications kb1)(a \<mapsto> j)\<rparr>)"
    using assms(2) by (simp add: key_inv_assert)
  show "keeps_except {a} kb (kb1\<lparr>facts := (facts kb1)(a \<mapsto> v), justifications := (justifications kb1)(a \<mapsto> j)\<rparr>)"
    using assms(3) by (simp add: keeps_except_def)
qed

lemma prove_conditions_post:
  assumes "sound_prover rec"
  shows "prove_conditions rt rec cs used kb vis = Some (res, kb', vis') \<Longrightarrow>
     frame kb kb' \<and> set vis \<subseteq> set vis' \<and> (key_inv kb \<longrightarrow> key_inv kb') \<and> keeps_except {} kb kb'"
proof (induction cs arbitrary: used kb vis)
  case Nil
  then show ?case by simp
next
  case (Cons c cs)
  show ?case
  proof (cases "facts kb (c_attr c)")
    case (Some x)
    with Cons show ?thesis by (auto split: if_splits)
  next
    case None
    show ?thesis
    proof (cases "c_op c \<in> set eq_ops")
      case False
      with None Cons.prems show ?thesis by simp
    next
      case True
      from True None Cons.prems obtain out kb1 vis1 where
        r: "rec kb (c_attr c) (c_value c) vis = Some (out, kb1, vis1)"
        by (auto split: option.splits)
      from assms r have p: "bp_post kb (c_attr c) vis (out, kb1, vis1)"
        by (simp add: sound_prover_def)
      then have k1: "frame kb kb1" "set vis \<subseteq> set vis1" "key_inv kb \<longrightarrow> key_inv kb1"
        "keeps_except {} kb kb1"
        using None by (auto simp: bp_post_def intro: keeps_unknown split: if_splits)
      show ?thesis
      proof (cases out)
        case (Raised e)
        with True None r Cons.prems k1 show ?thesis by auto
      next
        case (Returned b)
        show ?thesis
        proof (cases b)
          case False
          with Returned True None r Cons.prems k1 show ?thesis by auto
        next
          case True': True
          with Returned True None r Cons.prems
          have "prove_conditions rt rec cs
             (used @ [\<lparr>attr = c_attr c, val = (case facts kb1 (c_attr c) of Some y \<Rightarrow> y | None \<Rightarrow> c_value c)\<rparr>])
             kb1 vis1 = Some (res, kb', vis')" by simp
          from Cons.IH[OF this] k1 show ?thesis
            by (auto intro: frame_trans keeps_trans)
        qed
      qed
    qed
  qed
qed

lemma try_candidates_post:
  assumes "sound_prover rec"
  shows "try_candidates rt rec ga gv cands kb vis = Some res \<Longrightarrow> bp_post kb ga vis res"
proof (induction cands arbitrary: kb vis)
  case Nil
  then show ?case by (auto simp: bp_post_def)
next
  case (Cons r rs)
  from Cons.prems obtain pr kb1 vis1 where
    pc: "prove_conditions rt rec (r_conditions r) [] kb vis = Some (pr, kb1, vis1)"
    by (auto split: option.splits)
  note k1 = prove_conditions_post[OF assms pc]
  show ?case
  proof (cases pr)
    case (PremisesOk used)
    with pc Cons.prems have res: "res = (Returned True,
        kb1\<lparr>facts := (facts kb1)(ga \<mapsto> gv), justifications := (justifications kb1)(ga \<mapsto>
          \<lparr> j_fact = \<lparr>attr = ga, val = gv\<rparr>, j_rule_id = Some (r_id r),
             j_premises = used, j_note = ''backward'' \<rparr>)\<rparr>, vis1)" by simp
    from k1 have a: "frame kb kb1" "key_inv kb \<longrightarrow> key_inv kb1" "keeps_except {} kb kb1" by auto
    from assert_post[OF a] k1 show ?thesis
      unfolding res bp_post_def by simp
  next
    case PremisesFail
    with pc Cons.prems have "try_candidates rt rec ga gv rs kb1 vis1 = Some res" by simp
    from Cons.IH[OF this] k1 show ?thesis
      by (auto simp: bp_post_def intro: frame_trans keeps_trans2 split: if_splits)
  next
    case (PremisesRaised e)
    with pc Cons.prems k1 show ?thesis by (auto simp: bp_post_def)
  qed
qed

lemma prove_depth_sound: "sound_prover (prove_depth n rt)"
proof (induction n)
  case 0
  show ?case by (simp add: sound_prover_def)
next
  case (Suc n)
  show ?case
    unfolding sound_prover_def
  proof (intro allI impI)
    fix kb :: KnowledgeBase and a v vis res
    assume h: "prove_depth (Suc n) rt kb a v vis = Some res"
    show "bp_post kb a vis res"
    proof (cases "\<not> hashable v \<or> in_visited (a, v) vis \<or> has_fact kb a v")
      case True
      with h show ?thesis by (auto simp: bp_post_def split: if_splits)
    next
      case False
      with h have "try_candidates rt (prove_depth n rt) a v (candidates kb a v) kb ((a, v) # vis) = Some res"
        by simp
      from try_candidates_post[OF Suc this] show ?thesis
        by (auto simp: bp_post_def)
    qed
  qed
qed

subsection \<open>Termination of the backward prover\<close>

text \<open>Every recursive call adds a sub-goal that was not visited, so a depth of one more than
  the number of unvisited sub-goals is never exceeded.\<close>

lemma prove_conditions_total:
  assumes s: "sound_prover rec" and t: "total_prover rs k rec"
  shows "rules kb = rs \<Longrightarrow> \<forall>c\<in>set cs. (c_attr c, c_value c) \<in> set (subgoals rs) \<Longrightarrow>
     unvisited (subgoals rs) vis \<le> k \<Longrightarrow> prove_conditions rt rec cs used kb vis \<noteq> None"
proof (induction cs arbitrary: used kb vis)
  case Nil
  then show ?case by simp
next
  case (Cons c cs)
  show ?case
  proof (cases "facts kb (c_attr c)")
    case (Some x)
    with Cons show ?thesis by simp
  next
    case None
    show ?thesis
    proof (cases "c_op c \<in> set eq_ops")
      case False
      with None show ?thesis by simp
    next
      case True
      from t Cons.prems obtain out kb1 vis1 where
        r: "rec kb (c_attr c) (c_value c) vis = Some (out, kb1, vis1)"
        unfolding total_prover_def by (metis list.set_intros(1) not_Some_eq prod_cases3)
      from s r have "bp_post kb (c_attr c) vis (out, kb1, vis1)"
        by (simp add: sound_prover_def)
      then have k1: "rules kb1 = rules kb" "set vis \<subseteq> set vis1"
        by (auto simp: bp_post_def frame_def)
      have u: "unvisited (subgoals rs) vis1 \<le> k"
        using unvisited_mono[OF k1(2)] Cons.prems(3) by (meson le_trans)
      have "prove_conditions rt rec cs u' kb1 vis1 \<noteq> None" for u'
        using Cons.IH[of kb1 vis1 u'] k1 Cons.prems u by simp
      with True None r show ?thesis
        by (cases out) (auto split: bool.splits)
    qed
  qed
qed

lemma try_candidates_total:
  assumes s: "sound_prover rec" and t: "total_prover rs k rec"
  shows "rules kb = rs \<Longrightarrow> set cands \<subseteq> set rs \<Longrightarrow>
     unvisited (subgoals rs) vis \<le> k \<Longrightarrow> try_candidates rt rec ga gv cands kb vis \<noteq> None"
proof (induction cands arbitrary: kb vis)
  case Nil
  then show ?case by simp
next
  case (Cons r cands)
  have m: "\<forall>c\<in>set (r_conditions r). (c_attr c, c_value c) \<in> set (subgoals rs)"
    using Cons.prems(2) by (auto intro: subgoals_member)
  from prove_conditions_total[OF s t Cons.prems(1) m Cons.prems(3)] obtain pr kb1 vis1 where
    pc: "prove_conditions rt rec (r_conditions r) [] kb vis = Some (pr, kb1, vis1)"
    by (metis not_Some_eq prod_cases3)
  from prove_conditions_post[OF s pc] have k1: "rules kb1 = rules kb" "set vis \<subseteq> set vis1"
    by (auto simp: frame_def)
  have u: "unvisited (subgoals rs) vis1 \<le> k"
    using unvisited_mono[OF k1(2)] Cons.prems(3) by (meson le_trans)
  have "try_candidates rt rec ga gv cands kb1 vis1 \<noteq> None"
    using Cons.IH[of kb1 vis1] k1 Cons.prems u by simp
  with pc show ?case by (cases pr) auto
qed

lemma prove_depth_total: "total_prover rs n (prove_depth (Suc n) rt)"
proof (induction n)
  case 0
  show ?case
    unfolding total_prover_def
  proof (intro allI impI)
    fix kb :: KnowledgeBase and a v vis
    assume h: "rules kb = rs" "(a, v) \<in> set (subgoals rs)" "unvisited (subgoals rs) vis \<le> 0"
    have "in_visited (a, v) vis"
      using unvisited_less[OF h(2), of vis] h(3) by auto
    then show "prove_depth (Suc 0) rt kb a v vis \<noteq> None" by simp
  qed
next
  case (Suc n)
  show ?case
    unfolding total_prover_def
  proof (intro allI impI)
    fix kb :: KnowledgeBase and a v vis
    assume h: "rules kb = rs" "(a, v) \<in> set (subgoals rs)" "unvisited (subgoals rs) vis \<le> Suc n"
    show "prove_depth (Suc (Suc n)) rt kb a v vis \<noteq> None"
    proof (cases "\<not> hashable v \<or> in_visited (a, v) vis \<or> has_fact kb a v")
      case True
      then show ?thesis by auto
    next
      case False
      then have "unvisited (subgoals rs) ((a, v) # vis) \<le> n"
        using unvisited_less[OF h(2), of vis] h(3) by auto
      from try_candidates_total[OF prove_depth_sound Suc h(1) _ this]
      have "try_candidates rt (prove_depth (Suc n) rt) a v (candidates kb a v) kb ((a, v) # vis) \<noteq> None"
        using candidates_subset[of kb a v] h(1) by simp
      with False show ?thesis by simp
    qed
  qed
qed

lemma backward_prove_total: "backward_prove rt kb ga gv \<noteq> None"
proof (cases "\<not> hashable gv \<or> in_visited (ga, gv) [] \<or> has_fact kb ga gv")
  case True
  then show ?thesis by (auto simp: backward_prove_def)
next
  case False
  have "try_candidates rt (prove_depth (Suc (length (subgoals (rules kb)))) rt) ga gv
          (candidates kb ga gv) kb [(ga, gv)] \<noteq> None"
    by (rule try_candidates_total[OF prove_depth_sound prove_depth_total refl candidates_subset
      unvisited_le_length])
  then show ?thesis using False by (simp add: backward_prove_def)
qed

text \<open>Allowing more depth never changes a result, so the bound chosen in
  \<open>backward_prove\<close> does not show in what it returns.\<close>

lemma prove_conditions_le:
  assumes "le_prover rec rec'"
  shows "prove_conditions rt rec cs used kb vis = Some res \<Longrightarrow>
         prove_conditions rt rec' cs used kb vis = Some res"
proof (induction cs arbitrary: used kb vis)
  case Nil
  then show ?case by simp
next
  case (Cons c cs)
  show ?case
  proof (cases "facts kb (c_attr c) = None \<and> c_op c \<in> set eq_ops")
    case False
    with Cons show ?thesis by (auto split: option.splits if_splits)
  next
    case True
    with Cons.prems obtain out kb1 vis1 where
      r: "rec kb (c_attr c) (c_value c) vis = Some (out, kb1, vis1)"
      by (auto split: option.splits)
    with assms have r': "rec' kb (c_attr c) (c_value c) vis = Some (out, kb1, vis1)"
      by (simp add: le_prover_def)
    from True r r' Cons.prems Cons.IH show ?thesis
      by (cases out) (auto split: bool.splits)
  qed
qed

lemma try_candidates_le:
  assumes "le_prover rec rec'"
  shows "try_candidates rt rec ga gv cands kb vis = Some res \<Longrightarrow>
         try_candidates rt rec' ga gv cands kb vis = Some res"
proof (induction cands arbitrary: kb vis)
  case Nil
  then show ?case by simp
next
  case (Cons r cands)
  from Cons.prems obtain pr kb1 vis1 where
    pc: "prove_conditions rt rec (r_conditions r) [] kb vis = Some (pr, kb1, vis1)"
    by (auto split: option.splits)
  note pc' = prove_conditions_le[OF assms pc]
  from pc pc' Cons.prems Cons.IH show ?case
    by (cases pr) auto
qed

lemma prove_depth_Suc: "le_prover (prove_depth n rt) (prove_depth (Suc n) rt)"
proof (induction n)
  case 0
  show ?case by (simp add: le_prover_def)
next
  case (Suc n)
  show ?case
    unfolding le_prover_def
  proof (intro allI impI)
    fix kb :: KnowledgeBase and a v vis res
    assume h: "prove_depth (Suc n) rt kb a v vis = Some res"
    show "prove_depth (Suc (Suc n)) rt kb a v vis = Some res"
    proof (cases "\<not> hashable v \<or> in_visited (a, v) vis \<or> has_fact kb a v")
      case True
      with h show ?thesis by auto
    next
      case False
      with h have "try_candidates rt (prove_depth n rt) a v (candidates kb a v) kb ((a, v) # vis) = Some res"
        by simp
      from try_candidates_le[OF Suc this] False show ?thesis by simp
    qed
  qed
qed

lemma prove_depth_mono:
  "prove_depth n rt kb a v vis = Some res \<Longrightarrow> prove_depth (n + k) rt kb a v vis = Some res"
proof (induction k)
  case 0
  then show ?case by simp
next
  case (Suc k)
  then have "prove_depth (n + k) rt kb a v vis = Some res" by simp
  with prove_depth_Suc[of "n + k" rt] have "prove_depth (Suc (n + k)) rt kb a v vis = Some res"
    unfolding le_prover_def by blast
  then show ?case by (simp only: add_Suc_right)
qed

lemma backward_prove_any_depth:
  "prove_depth (Suc (Suc (length (subgoals (rules kb)))) + k) rt kb a v [] = backward_prove rt kb a v"
proof -
  obtain res where r: "backward_prove rt kb a v = Some res"
    using backward_prove_total[of rt kb a v] by auto
  then have "prove_depth (Suc (Suc (length (subgoals (rules kb))))) rt kb a v [] = Some res"
    by (simp only: backward_prove_def)
  from prove_depth_mono[OF this, of k] r show ?thesis by (simp only:)
qed

section \<open>Invariants of forward chaining\<close>

lemma forward_scan_step:
  "forward_scan rt it (r # rs) kb inferred new_any =
     (if fires rt kb r then
        forward_scan rt it rs
          (kb\<lparr> facts := (facts kb)(c_attr (r_conclusion r) \<mapsto> c_value (r_conclusion r)),
               justifications := (justifications kb)(c_attr (r_conclusion r) \<mapsto>
                 \<lparr> j_fact = \<lparr>attr = c_attr (r_conclusion r), val = c_value (r_conclusion r)\<rparr>,
                   j_rule_id = Some (r_id r),
                   j_premises = snd (conditions_hold rt kb (r_conditions r)),
                   j_note = ''forward (it='' @ str_int it @ '')'' \<rparr>) \<rparr>)
          (inferred @ [\<lparr>attr = c_attr (r_conclusion r), val = c_value (r_conclusion r)\<rparr>]) True
      else forward_scan rt it rs kb inferred new_any)"
  by (auto simp: fires_def Let_def split: prod.splits bool.splits)

lemma forward_scan_post:
  "forward_scan rt it rs kb inferred new_any = (kb', inferred', new_any') \<Longrightarrow>
     frame kb kb' \<and> (key_inv kb \<longrightarrow> key_inv kb') \<and> dom (facts kb) \<subseteq> dom (facts kb') \<and>
     (new_any \<longrightarrow> new_any')"
proof (induction rs arbitrary: kb inferred new_any)
  case Nil
  then show ?case by simp
next
  case (Cons r rs)
  show ?case
  proof (cases "fires rt kb r")
    case False
    with Cons.prems have "forward_scan rt it rs kb inferred new_any = (kb', inferred', new_any')"
      by (simp only: forward_scan_step if_False)
    from Cons.IH[OF this] show ?thesis .
  next
    case True
    let ?kb2 = "kb\<lparr> facts := (facts kb)(c_attr (r_conclusion r) \<mapsto> c_value (r_conclusion r)),
               justifications := (justifications kb)(c_attr (r_conclusion r) \<mapsto>
                 \<lparr> j_fact = \<lparr>attr = c_attr (r_conclusion r), val = c_value (r_conclusion r)\<rparr>,
                   j_rule_id = Some (r_id r),
                   j_premises = snd (conditions_hold rt kb (r_conditions r)),
                   j_note = ''forward (it='' @ str_int it @ '')'' \<rparr>) \<rparr>"
    from True Cons.prems have "forward_scan rt it rs ?kb2
          (inferred @ [\<lparr>attr = c_attr (r_conclusion r), val = c_value (r_conclusion r)\<rparr>]) True
        = (kb', inferred', new_any')"
      by (simp only: forward_scan_step if_True)
    from Cons.IH[OF this] have ih: "frame ?kb2 kb'" "key_inv ?kb2 \<longrightarrow> key_inv kb'"
      "dom (facts ?kb2) \<subseteq> dom (facts kb')" "new_any'" by blast+
    have a: "frame kb ?kb2" by (simp add: frame_def)
    have b: "key_inv kb \<longrightarrow> key_inv ?kb2" by (simp add: key_inv_assert)
    have c: "dom (facts kb) \<subseteq> dom (facts ?kb2)" by auto
    from frame_trans[OF a ih(1)] b ih(2) c ih(3) ih(4) show ?thesis by blast
  qed
qed

lemma forward_scan_stable:
  "\<forall>r\<in>set rs. \<not> fires rt kb r \<Longrightarrow> forward_scan rt it rs kb inferred new_any = (kb, inferred, new_any)"
proof (induction rs)
  case Nil
  show ?case by simp
next
  case (Cons r rs)
  then show ?case by (simp only: forward_scan_step) simp
qed

lemma forward_scan_quiet:
  "forward_scan rt it rs kb inferred False = (kb', inferred', False) \<Longrightarrow> \<forall>r\<in>set rs. \<not> fires rt kb r"
proof (induction rs)
  case Nil
  show ?case by simp
next
  case (Cons r rs)
  show ?case
  proof (cases "fires rt kb r")
    case True
    with Cons.prems forward_scan_post show ?thesis
      by (simp only: forward_scan_step if_True) blast
  next
    case False
    with Cons show ?thesis by (simp only: forward_scan_step if_False) simp
  qed
qed

lemma forward_scan_keeps:
  "settled rs a v \<Longrightarrow> facts kb a = Some v \<Longrightarrow>
   forward_scan rt it rs kb inferred new_any = (kb', inferred', new_any') \<Longrightarrow> facts kb' a = Some v"
proof (induction rs arbitrary: kb inferred new_any)
  case Nil
  then show ?case by simp
next
  case (Cons r rs)
  have s: "settled rs a v" using Cons.prems(1) by (simp add: settled_def)
  show ?case
  proof (cases "fires rt kb r")
    case False
    with Cons.prems(3) have "forward_scan rt it rs kb inferred new_any = (kb', inferred', new_any')"
      by (simp only: forward_scan_step if_False)
    from Cons.IH[OF s Cons.prems(2) this] show ?thesis .
  next
    case True
    have ne: "c_attr (r_conclusion r) \<noteq> a"
    proof
      assume e: "c_attr (r_conclusion r) = a"
      with Cons.prems(1) have "c_value (r_conclusion r) = PNone \<or> py_eq v (c_value (r_conclusion r))"
        by (simp add: settled_def)
      with e Cons.prems(2) have "has_fact kb (c_attr (r_conclusion r)) (c_value (r_conclusion r))"
        by (auto simp: has_fact_def)
      with True show False by (simp add: fires_def)
    qed
    from True Cons.prems(3) have "forward_scan rt it rs
          (kb\<lparr> facts := (facts kb)(c_attr (r_conclusion r) \<mapsto> c_value (r_conclusion r)),
               justifications := (justifications kb)(c_attr (r_conclusion r) \<mapsto>
                 \<lparr> j_fact = \<lparr>attr = c_attr (r_conclusion r), val = c_value (r_conclusion r)\<rparr>,
                   j_rule_id = Some (r_id r),
                   j_premises = snd (conditions_hold rt kb (r_conditions r)),
                   j_note = ''forward (it='' @ str_int it @ '')'' \<rparr>) \<rparr>)
          (inferred @ [\<lparr>attr = c_attr (r_conclusion r), val = c_value (r_conclusion r)\<rparr>]) True
        = (kb', inferred', new_any')"
      by (simp only: forward_scan_step if_True)
    from Cons.IH[OF s _ this] ne Cons.prems(2) show ?thesis by simp
  qed
qed

lemma forward_loop_post:
  "forward_loop rt m kb inferred it new_any = (kb', inferred', it', new_any') \<Longrightarrow>
     frame kb kb' \<and> (key_inv kb \<longrightarrow> key_inv kb') \<and> dom (facts kb) \<subseteq> dom (facts kb') \<and>
     (\<forall>a v. settled (rules kb) a v \<longrightarrow> facts kb a = Some v \<longrightarrow> facts kb' a = Some v)"
proof (induction rt m kb inferred it new_any rule: forward_loop.induct)
  case (1 rt m kb inferred it new_any)
  show ?case
  proof (cases "new_any \<and> it < m")
    case False
    with "1.prems" show ?thesis by (simp add: forward_loop.simps)
  next
    case True
    obtain kb1 inf1 na1 where sc: "forward_scan rt (it + 1) (rules kb) kb inferred False = (kb1, inf1, na1)"
      by (cases "forward_scan rt (it + 1) (rules kb) kb inferred False") auto
    with True "1.prems" have l: "forward_loop rt m kb1 inf1 (it + 1) na1 = (kb', inferred', it', new_any')"
      by (simp add: forward_loop.simps[of rt m kb])
    note ih = "1.IH"[OF True sc[symmetric] refl l]
    note p = forward_scan_post[OF sc]
    have r: "rules kb1 = rules kb" using p by (simp add: frame_def)
    have k: "\<forall>a v. settled (rules kb) a v \<longrightarrow> facts kb a = Some v \<longrightarrow> facts kb' a = Some v"
      using ih r forward_scan_keeps[OF _ _ sc] by metis
    have f: "frame kb kb'" using ih p frame_trans by blast
    have i: "key_inv kb \<longrightarrow> key_inv kb'" using ih p by blast
    have d: "dom (facts kb) \<subseteq> dom (facts kb')" using ih p by blast
    from k f i d show ?thesis by blast
  qed
qed

lemma forward_loop_fixpoint:
  "forward_loop rt m kb inferred it new_any = (kb', inferred', it', False) \<Longrightarrow> new_any \<Longrightarrow>
     \<forall>r\<in>set (rules kb'). \<not> fires rt kb' r"
proof (induction rt m kb inferred it new_any rule: forward_loop.induct)
  case (1 rt m kb inferred it new_any)
  show ?case
  proof (cases "it < m")
    case False
    with "1.prems" show ?thesis by (simp add: forward_loop.simps)
  next
    case True
    obtain kb1 inf1 na1 where sc: "forward_scan rt (it + 1) (rules kb) kb inferred False = (kb1, inf1, na1)"
      by (cases "forward_scan rt (it + 1) (rules kb) kb inferred False") auto
    with True "1.prems" have l: "forward_loop rt m kb1 inf1 (it + 1) na1 = (kb', inferred', it', False)"
      by (simp add: forward_loop.simps[of rt m kb])
    show ?thesis
    proof (cases na1)
      case True
      have c: "new_any \<and> it < m" using \<open>it < m\<close> "1.prems"(2) by simp
      from "1.IH"[OF c sc[symmetric] refl l True] show ?thesis .
    next
      case False
      with l have e: "kb' = kb1" by (simp add: forward_loop.simps)
      from sc False have q: "\<forall>r\<in>set (rules kb). \<not> fires rt kb r"
        using forward_scan_quiet[of rt "it + 1" "rules kb" kb inferred kb1 inf1] by simp
      from forward_scan_stable[OF q] sc have "kb1 = kb" by simp
      with e q show ?thesis by simp
    qed
  qed
qed

lemma forward_chain_stable:
  assumes "\<forall>r\<in>set (rules kb). \<not> fires rt kb r"
  shows "forward_chain rt kb m = ([], kb)"
proof (cases "0 < m")
  case False
  then show ?thesis by (simp add: forward_chain_def forward_loop.simps)
next
  case True
  have "forward_loop rt m kb [] 0 True = forward_loop rt m kb [] 1 False"
    using True forward_scan_stable[OF assms] by (simp add: forward_loop.simps[of rt m kb "[]" 0])
  then show ?thesis by (simp add: forward_chain_def forward_loop.simps[of rt m kb "[]" 1])
qed

section \<open>Snapshots, catalogs and loading\<close>

lemma copy_fact_id [simp]: "copy_fact f = f"
  by (simp add: copy_fact_def)

lemma copy_justification_id [simp]: "copy_justification j = j"
  by (simp add: copy_justification_def map_idI)

lemma copy_rule_id [simp]: "copy_rule r = r"
  by (simp add: copy_rule_def)

lemma map_copy_rule [simp]: "map copy_rule rs = rs"
  by (simp add: map_idI)

lemma map_option_copy_justification [simp]: "map_option copy_justification x = x"
  by (cases x) simp_all

lemma restore_snapshot: "restore_kb kb' (snapshot_kb kb) = kb"
  by (cases kb, cases kb') (simp add: restore_kb_def snapshot_kb_def)

lemma touch_attribute_core:
  "facts (touch_attribute rt a w kb) = facts kb \<and> justifications (touch_attribute rt a w kb) = justifications kb
   \<and> rules (touch_attribute rt a w kb) = rules kb \<and> next_rule_id (touch_attribute rt a w kb) = next_rule_id kb"
  by (simp add: touch_attribute_def Let_def split: place.splits)

lemma foldl_touch_core:
  "facts (foldl (\<lambda>k c. touch_attribute rt (c_attr c) w k) kb cs) = facts kb \<and>
   justifications (foldl (\<lambda>k c. touch_attribute rt (c_attr c) w k) kb cs) = justifications kb \<and>
   rules (foldl (\<lambda>k c. touch_attribute rt (c_attr c) w k) kb cs) = rules kb \<and>
   next_rule_id (foldl (\<lambda>k c. touch_attribute rt (c_attr c) w k) kb cs) = next_rule_id kb"
  by (induction cs arbitrary: kb) (simp_all add: touch_attribute_core)

lemma extract_core:
  "facts (extract_attributes_from_rule rt r kb) = facts kb \<and>
   justifications (extract_attributes_from_rule rt r kb) = justifications kb \<and>
   rules (extract_attributes_from_rule rt r kb) = rules kb \<and>
   next_rule_id (extract_attributes_from_rule rt r kb) = next_rule_id kb"
  by (simp add: extract_attributes_from_rule_def touch_attribute_core foldl_touch_core)

lemma foldl_extract_core:
  "facts (foldl (\<lambda>k r. extract_attributes_from_rule rt r k) kb rs) = facts kb \<and>
   justifications (foldl (\<lambda>k r. extract_attributes_from_rule rt r k) kb rs) = justifications kb \<and>
   rules (foldl (\<lambda>k r. extract_attributes_from_rule rt r k) kb rs) = rules kb \<and>
   next_rule_id (foldl (\<lambda>k r. extract_attributes_from_rule rt r k) kb rs) = next_rule_id kb"
  by (induction rs arbitrary: kb) (simp_all add: extract_core)

lemma rebuild_core:
  "facts (rebuild_attributes rt kb) = facts kb \<and>
   justifications (rebuild_attributes rt kb) = justifications kb \<and>
   rules (rebuild_attributes rt kb) = rules kb \<and>
   next_rule_id (rebuild_attributes rt kb) = next_rule_id kb"
  by (simp add: rebuild_attributes_def foldl_extract_core)

lemma load_rules_post:
  "load_rules js kb = (e, kb') \<Longrightarrow>
     facts kb' = facts kb \<and> justifications kb' = justifications kb \<and>
     (ids_below kb \<longrightarrow> ids_below kb')"
proof (induction js arbitrary: kb)
  case Nil
  then show ?case by simp
next
  case (Cons j js)
  show ?case
  proof (cases "jr_id j")
    case None
    with Cons.prems show ?thesis by (auto simp: ids_below_def Let_def less_max_iff_disj)
  next
    case (Some i)
    let ?kb1 = "kb\<lparr>next_rule_id := max (next_rule_id kb) (i + 1)\<rparr>"
    let ?kb2 = "?kb1\<lparr>rules := rules ?kb1 @
        [\<lparr> r_id = i, r_conditions = jr_conditions j, r_conclusion = jr_conclusion j,
           r_text = (case jr_text j of None \<Rightarrow> [] | Some t \<Rightarrow> t) \<rparr>]\<rparr>"
    from Some Cons.prems have "load_rules js ?kb2 = (e, kb')" by (simp add: Let_def)
    from Cons.IH[OF this] have ih: "facts kb' = facts ?kb2" "justifications kb' = justifications ?kb2"
      "ids_below ?kb2 \<longrightarrow> ids_below kb'" by blast+
    have "ids_below kb \<longrightarrow> ids_below ?kb2" by (auto simp: ids_below_def)
    with ih show ?thesis by simp
  qed
qed

lemma foldl_add_fact_key_inv:
  "key_inv kb \<Longrightarrow> key_inv (foldl (\<lambda>k f. add_fact k (fst f) (snd f) nt) kb fs)"
  by (induction fs arbitrary: kb) (simp_all add: add_fact_def key_inv_assert)

lemma foldl_add_fact_frame:
  "rules (foldl (\<lambda>k f. add_fact k (fst f) (snd f) nt) kb fs) = rules kb \<and>
   next_rule_id (foldl (\<lambda>k f. add_fact k (fst f) (snd f) nt) kb fs) = next_rule_id kb"
  by (induction fs arbitrary: kb) (simp_all add: add_fact_def)

lemma load_json_post:
  "key_inv (snd (load_json rt obj)) \<and> (fst (load_json rt obj) = None \<longrightarrow> ids_below (snd (load_json rt obj)))"
proof -
  let ?kb0 = "foldl (\<lambda>k f. add_fact k (fst f) (snd f) ''base'') init_kb (jk_facts obj)"
  obtain e kb1 where l: "load_rules (jk_rules obj) ?kb0 = (e, kb1)"
    by (cases "load_rules (jk_rules obj) ?kb0") auto
  have k0: "key_inv ?kb0" by (rule foldl_add_fact_key_inv) (simp add: key_inv_def init_kb_def)
  have i0: "ids_below ?kb0" by (simp add: ids_below_def foldl_add_fact_frame init_kb_def)
  from load_rules_post[OF l] k0 i0 have p: "key_inv kb1" "ids_below kb1"
    by (auto simp: key_inv_def)
  show ?thesis
  proof (cases e)
    case None
    with l p show ?thesis by (simp add: load_json_def key_inv_def ids_below_def rebuild_core)
  next
    case (Some x)
    with l p show ?thesis by (simp add: load_json_def)
  qed
qed

lemma add_rule_post:
  "add_rule rt kb conds concl txt = (rid, kb') \<Longrightarrow>
     rid = next_rule_id kb \<and> next_rule_id kb' = next_rule_id kb + 1 \<and>
     map r_id (rules kb') = map r_id (rules kb) @ [rid]"
  by (auto simp: add_rule_def Let_def extract_core)

lemma add_rules_post:
  "add_rules rt kb specs = (rids, kb') \<Longrightarrow>
     next_rule_id kb \<le> next_rule_id kb' \<and> (\<forall>rid\<in>set rids. next_rule_id kb \<le> rid \<and> rid < next_rule_id kb') \<and>
     distinct rids \<and> map r_id (rules kb') = map r_id (rules kb) @ rids"
proof (induction specs arbitrary: kb rids kb')
  case Nil
  then show ?case by simp
next
  case (Cons s specs)
  obtain conds concl tx where s: "s = (conds, concl, tx)" by (cases s) auto
  obtain rid kb1 where a: "add_rule rt kb conds concl tx = (rid, kb1)"
    by (cases "add_rule rt kb conds concl tx") auto
  obtain rids1 kb2 where b: "add_rules rt kb1 specs = (rids1, kb2)"
    by (cases "add_rules rt kb1 specs") auto
  from s a b Cons.prems have e: "rids = rid # rids1" "kb' = kb2" by simp_all
  note p = add_rule_post[OF a]
  note q = Cons.IH[OF b]
  from p q have "rid \<notin> set rids1" by auto
  with p q e show ?case by auto
qed

section \<open>The claims\<close>

subsection \<open>C1: forward chaining and the facts already known\<close>

text \<open>C1, as stated, fails: a rule whose conditions hold and whose conclusion gives an
  already-known attribute another value overwrites the stored value. On the store
  \<open>kb_fever\<close> the pair \<^verbatim>\<open>Febre = Nao\<close> is replaced by \<^verbatim>\<open>Febre = Sim\<close>.\<close>

theorem forward_chain_overwrites:
  "facts kb_fever ''Febre'' = Some (PStr ''Nao'') \<and>
   facts (snd (forward_chain ascii_runtime kb_fever 50)) ''Febre'' = Some (PStr ''Sim'')"
  by (simp add: kb_fever_def eval_defs forward_loop.simps str_nat.simps)

text \<open>C1 (amended): \<^verbatim>\<open>forward_chain\<close> never removes an attribute from the facts, for every
  store and iteration cap, and a pair of attribute and value present before the call is still
  present after it whenever every rule that concludes this attribute concludes
  \<^verbatim>\<open>None\<close> or a value equal to the stored one.\<close>

theorem forward_chain_monotone_keys:
  assumes "forward_chain rt kb m = (inferred, kb')"
  shows "dom (facts kb) \<subseteq> dom (facts kb') \<and>
         (\<forall>a v. facts kb a = Some v \<and> settled (rules kb) a v \<longrightarrow> facts kb' a = Some v)"
proof -
  from assms obtain it na where "forward_loop rt m kb [] 0 True = (kb', inferred, it, na)"
    by (auto simp: forward_chain_def split: prod.splits)
  from forward_loop_post[OF this] show ?thesis by blast
qed

theorem forward_chain_monotone_keys_witness:
  "facts kb_fever ''Temperatura'' = Some (PFloat 39.2) \<and>
   settled (rules kb_fever) ''Temperatura'' (PFloat 39.2) \<and>
   facts (snd (forward_chain ascii_runtime kb_fever 50)) ''Temperatura'' = Some (PFloat 39.2)"
proof -
  have h: "forward_chain ascii_runtime kb_fever 50 =
      (fst (forward_chain ascii_runtime kb_fever 50), snd (forward_chain ascii_runtime kb_fever 50))"
    by simp
  have a: "facts kb_fever ''Temperatura'' = Some (PFloat 39.2)" by (simp add: kb_fever_def)
  have b: "settled (rules kb_fever) ''Temperatura'' (PFloat 39.2)"
    by (simp add: kb_fever_def settled_def)
  from forward_chain_monotone_keys[OF h] a b show ?thesis by blast
qed

subsection \<open>C2: a failed backward proof\<close>




subsection \<open>C3: termination and cycles\<close>

text \<open>C3: \<^verbatim>\<open>backward_prove\<close> returns for every store and goal; and for two rules that
  conclude \<^verbatim>\<open>X = 1\<close> from \<^verbatim>\<open>Y = 1\<close> and \<^verbatim>\<open>Y = 1\<close> from \<^verbatim>\<open>X = 1\<close>, with
  neither attribute known, the proof of \<^verbatim>\<open>X = 1\<close> returns failure and leaves the store as
  it was.\<close>

theorem backward_prove_terminates:
  "(\<exists>res. backward_prove rt kb goal_attr goal_val = Some res) \<and>
   (rules kc = [\<lparr> r_id = i, r_conditions = [\<lparr>c_attr = y, c_op = ''='', c_value = PInt 1\<rparr>],
                   r_conclusion = \<lparr>c_attr = x, c_op = ''='', c_value = PInt 1\<rparr>, r_text = ta \<rparr>,
                 \<lparr> r_id = j, r_conditions = [\<lparr>c_attr = x, c_op = ''='', c_value = PInt 1\<rparr>],
                   r_conclusion = \<lparr>c_attr = y, c_op = ''='', c_value = PInt 1\<rparr>, r_text = tb \<rparr>]
      \<and> facts kc x = None \<and> facts kc y = None
    \<longrightarrow> (\<exists>vis. backward_prove rt kc x (PInt 1) = Some (Returned False, kc, vis)))"
proof
  show "\<exists>res. backward_prove rt kb goal_attr goal_val = Some res"
    using backward_prove_total[of rt kb goal_attr goal_val] by auto
  show "rules kc = [\<lparr> r_id = i, r_conditions = [\<lparr>c_attr = y, c_op = ''='', c_value = PInt 1\<rparr>],
                   r_conclusion = \<lparr>c_attr = x, c_op = ''='', c_value = PInt 1\<rparr>, r_text = ta \<rparr>,
                 \<lparr> r_id = j, r_conditions = [\<lparr>c_attr = x, c_op = ''='', c_value = PInt 1\<rparr>],
                   r_conclusion = \<lparr>c_attr = y, c_op = ''='', c_value = PInt 1\<rparr>, r_text = tb \<rparr>]
      \<and> facts kc x = None \<and> facts kc y = None
    \<longrightarrow> (\<exists>vis. backward_prove rt kc x (PInt 1) = Some (Returned False, kc, vis))"
    by (cases "x = y") (simp_all add: backward_prove_def subgoals_def candidates_def has_fact_def
        in_visited_def eq_ops_def)
qed

theorem backward_prove_terminates_witness:
  "facts kb_cycle ''X'' = None \<and> facts kb_cycle ''Y'' = None \<and>
   backward_prove ascii_runtime kb_cycle ''X'' (PInt 1) =
     Some (Returned False, kb_cycle, [(''Y'', PInt 1), (''X'', PInt 1)])"
  using backward_prove_terminates[of ascii_runtime kb_cycle "''X''" "PInt 1" kb_cycle 1 "''Y''" "''X''"
      "''SE Y = 1 ENTAO X = 1''" 2 "''SE X = 1 ENTAO Y = 1''"]
  by (simp add: kb_cycle_def eval_defs)

subsection \<open>C4: a second forward run\<close>

text \<open>C4, as stated, fails: a run that stops at the iteration cap has not reached a fixpoint. On
  \<open>kb_flip\<close> the two rules overwrite each other in every round, and a second run with
  the default cap of 50 derives facts again.\<close>

theorem forward_chain_second_run_derives:
  "fst (forward_chain ascii_runtime (snd (forward_chain ascii_runtime kb_flip 50)) 50) \<noteq> []"
  by (simp add: kb_flip_def eval_defs forward_loop.simps str_nat.simps)

text \<open>C4 (amended): if a run of \<^verbatim>\<open>forward_chain\<close> ends because a round asserted nothing
  (its loop is left with \<^verbatim>\<open>new_any\<close> false), then a second run on the store it leaves,
  with any cap, derives no fact and leaves the store unchanged.\<close>

theorem forward_chain_fixpoint_idempotent:
  assumes "forward_loop rt m kb [] 0 True = (kb', inferred, it, False)"
  shows "forward_chain rt kb m = (inferred, kb') \<and> forward_chain rt kb' m2 = ([], kb')"
proof -
  from forward_loop_fixpoint[OF assms] have "\<forall>r\<in>set (rules kb'). \<not> fires rt kb' r" by simp
  from forward_chain_stable[OF this] assms show ?thesis by (simp add: forward_chain_def)
qed

theorem forward_chain_fixpoint_idempotent_witness:
  "snd (snd (snd (forward_loop ascii_runtime 50 kb_fever [] 0 True))) = False \<and>
   fst (forward_chain ascii_runtime (snd (forward_chain ascii_runtime kb_fever 50)) 50) = []"
proof -
  let ?r = "forward_loop ascii_runtime 50 kb_fever [] 0 True"
  have f: "snd (snd (snd ?r)) = False"
    by (simp add: kb_fever_def eval_defs forward_loop.simps str_nat.simps)
  then have h: "?r = (fst ?r, fst (snd ?r), fst (snd (snd ?r)), False)"
    by (metis prod.collapse)
  from forward_chain_fixpoint_idempotent[OF h, of 50] f show ?thesis by simp
qed

subsection \<open>C5: the conjunction of conditions\<close>

text \<open>C5: \<^verbatim>\<open>conditions_hold\<close> returns \<^verbatim>\<open>(False, [])\<close> as soon as a condition has no fact
  for its attribute or is rejected by the predicate, whatever follows it, and otherwise
  \<^verbatim>\<open>True\<close> with the facts consulted, one for each condition, in the order of the
  conditions.\<close>

theorem conditions_hold_spec:
  "conditions_hold rt kb conds =
     (if \<forall>c\<in>set conds. condition_holds rt kb c then (True, map (consulted kb) conds) else (False, []))
   \<and> (\<not> condition_holds rt kb c \<longrightarrow> conditions_hold rt kb (pre @ c # post) = (False, []))"
  by (simp add: conditions_hold_def conditions_loop_spec)

theorem conditions_hold_spec_witness:
  "condition_holds ascii_runtime kb_fever \<lparr>c_attr = ''Temperatura'', c_op = ''>'', c_value = PFloat 38.0\<rparr> \<and>
   conditions_hold ascii_runtime kb_fever [\<lparr>c_attr = ''Temperatura'', c_op = ''>'', c_value = PFloat 38.0\<rparr>]
     = (True, [\<lparr>attr = ''Temperatura'', val = PFloat 39.2\<rparr>]) \<and>
   \<not> condition_holds ascii_runtime kb_fever \<lparr>c_attr = ''Pulso'', c_op = ''>'', c_value = PFloat 38.0\<rparr> \<and>
   conditions_hold ascii_runtime kb_fever
     [\<lparr>c_attr = ''Temperatura'', c_op = ''>'', c_value = PFloat 38.0\<rparr>,
      \<lparr>c_attr = ''Pulso'', c_op = ''>'', c_value = PFloat 38.0\<rparr>] = (False, [])"
  using conditions_hold_spec[of ascii_runtime kb_fever
      "[\<lparr>c_attr = ''Temperatura'', c_op = ''>'', c_value = PFloat 38.0\<rparr>]"
      "\<lparr>c_attr = ''Pulso'', c_op = ''>'', c_value = PFloat 38.0\<rparr>"
      "[\<lparr>c_attr = ''Temperatura'', c_op = ''>'', c_value = PFloat 38.0\<rparr>]" "[]"]
  by (simp add: condition_holds_def consulted_def kb_fever_def cmp_def cmp_try_def float_rel_def op_defs)

subsection \<open>C6: the condition predicate\<close>

text \<open>C6, as stated, fails on booleans: \<^verbatim>\<open>float\<close> converts them, so an ordering operator
  compares them as the numbers 1 and 0.\<close>

theorem cmp_orders_booleans: "cmp ascii_runtime (PBool True) ''>'' (PBool False)"
  by (simp add: cmp_def cmp_try_def float_rel_def op_defs)

text \<open>C6 (amended): \<^verbatim>\<open>_cmp\<close> never raises, every exception of its body giving
  \<^verbatim>\<open>False\<close>; an unknown operator gives \<^verbatim>\<open>False\<close>; an ordering operator gives
  \<^verbatim>\<open>False\<close> whenever \<^verbatim>\<open>float\<close> rejects one of the operands, which it does for every
  list and for \<^verbatim>\<open>None\<close>; and a boolean is converted to 1 or 0.\<close>

theorem cmp_total_fail_closed:
  "cmp rt a opr b = (cmp_try rt a opr b = Inr True)
   \<and> (opr \<notin> set (eq_ops @ ne_ops @ lt_ops @ gt_ops) \<and> str_upper rt opr \<noteq> ''IN'' \<longrightarrow> \<not> cmp rt a opr b)
   \<and> (opr \<in> set (lt_ops @ gt_ops) \<and> (py_float rt a \<in> range Inl \<or> py_float rt b \<in> range Inl)
        \<longrightarrow> \<not> cmp rt a opr b)
   \<and> (opr \<in> set (lt_ops @ gt_ops) \<and> x \<in> range PList \<union> {PNone} \<and> (a = x \<or> b = x) \<longrightarrow> \<not> cmp rt a opr b)
   \<and> py_float rt (PBool t) = Inr (if t then 1 else 0)"
proof (intro conjI)
  show "cmp rt a opr b = (cmp_try rt a opr b = Inr True)" by (rule cmp_caught)
  show "opr \<notin> set (eq_ops @ ne_ops @ lt_ops @ gt_ops) \<and> str_upper rt opr \<noteq> ''IN'' \<longrightarrow> \<not> cmp rt a opr b"
    by (simp add: cmp_def cmp_try_def)
  have ord: "\<not> cmp rt a opr b"
    if "opr \<in> set (lt_ops @ gt_ops)" "py_float rt a \<in> range Inl \<or> py_float rt b \<in> range Inl"
    for a b
    using that by (auto simp: cmp_def cmp_try_def float_rel_def op_defs split: sum.splits)
  then show "opr \<in> set (lt_ops @ gt_ops) \<and> (py_float rt a \<in> range Inl \<or> py_float rt b \<in> range Inl)
        \<longrightarrow> \<not> cmp rt a opr b" by blast
  have "py_float rt x \<in> range Inl" if "x \<in> range PList \<union> {PNone}"
    using that by auto
  with ord show "opr \<in> set (lt_ops @ gt_ops) \<and> x \<in> range PList \<union> {PNone} \<and> (a = x \<or> b = x) \<longrightarrow> \<not> cmp rt a opr b"
    by blast
  show "py_float rt (PBool t) = Inr (if t then 1 else 0)" by simp
qed

theorem cmp_total_fail_closed_witness:
  "''<'' \<in> set (lt_ops @ gt_ops) \<and> py_float ascii_runtime (PList [PInt 1]) = Inl TypeError \<and>
   \<not> cmp ascii_runtime (PList [PInt 1]) ''<'' (PInt 3) \<and>
   \<not> cmp ascii_runtime (PInt 1) ''~'' (PInt 1)"
proof -
  have a: "''<'' \<in> set (lt_ops @ gt_ops)" by (simp add: op_defs)
  have b: "py_float ascii_runtime (PList [PInt 1]) = Inl TypeError" by simp
  have c: "''~'' \<notin> set (eq_ops @ ne_ops @ lt_ops @ gt_ops)" by (simp add: op_defs)
  have d: "str_upper ascii_runtime ''~'' \<noteq> ''IN''"
    by (simp add: ascii_runtime_def ascii_upper_def)
  have e: "py_float ascii_runtime (PList [PInt 1]) \<in> range Inl" by simp
  from cmp_total_fail_closed[of ascii_runtime "PList [PInt 1]" "''<''" "PInt 3" PNone True] a e
  have f: "\<not> cmp ascii_runtime (PList [PInt 1]) ''<'' (PInt 3)" by blast
  from cmp_total_fail_closed[of ascii_runtime "PInt 1" "''~''" "PInt 1" PNone True] c d
  have g: "\<not> cmp ascii_runtime (PInt 1) ''~'' (PInt 1)" by blast
  from a b f g show ?thesis by blast
qed

subsection \<open>C7: undo\<close>

text \<open>C7: restoring the snapshot taken before a mutating operation gives back the store as it
  was before the operation, in all its seven fields.\<close>

theorem snapshot_restore_identity:
  "restore_kb (apply_mutation rt m kb) (snapshot_kb kb) = kb"
  by (rule restore_snapshot)

theorem snapshot_restore_identity_witness:
  "facts (apply_mutation ascii_runtime (AddFact ''Febre'' (PStr ''Sim'')) kb_fever) ''Febre'' = Some (PStr ''Sim'') \<and>
   facts kb_fever ''Febre'' = Some (PStr ''Nao'') \<and>
   restore_kb (apply_mutation ascii_runtime (AddFact ''Febre'' (PStr ''Sim'')) kb_fever) (snapshot_kb kb_fever)
     = kb_fever"
  using snapshot_restore_identity[of ascii_runtime "AddFact ''Febre'' (PStr ''Sim'')" kb_fever]
  by (simp add: add_fact_def kb_fever_def)

subsection \<open>C8: facts and justifications have the same keys\<close>

text \<open>C8: \<^verbatim>\<open>add_fact\<close>, \<^verbatim>\<open>forward_chain\<close>, \<^verbatim>\<open>backward_prove\<close> (whatever its outcome),
  \<^verbatim>\<open>load_json\<close> and the restoring of a snapshot taken from a store with the invariant all
  leave a store in which the facts and the justifications have the same keys.\<close>

theorem facts_justifications_same_keys:
  "(key_inv kb \<longrightarrow> key_inv (add_fact kb a v nt)) \<and>
   (key_inv kb \<longrightarrow> key_inv (snd (forward_chain rt kb m))) \<and>
   (key_inv kb \<longrightarrow> (\<exists>out kb' vis. backward_prove rt kb goal_attr goal_val = Some (out, kb', vis) \<and> key_inv kb')) \<and>
   key_inv (snd (load_json rt obj)) \<and>
   (key_inv kb \<longrightarrow> key_inv (restore_kb kb2 (snapshot_kb kb)))"
proof (intro conjI)
  show "key_inv kb \<longrightarrow> key_inv (add_fact kb a v nt)"
    by (simp add: add_fact_def key_inv_assert)
  show "key_inv kb \<longrightarrow> key_inv (snd (forward_chain rt kb m))"
  proof -
    obtain kb' inferred it na where l: "forward_loop rt m kb [] 0 True = (kb', inferred, it, na)"
      by (cases "forward_loop rt m kb [] 0 True") auto
    from forward_loop_post[OF l] l show ?thesis by (simp add: forward_chain_def)
  qed
  show "key_inv kb \<longrightarrow> (\<exists>out kb' vis. backward_prove rt kb goal_attr goal_val = Some (out, kb', vis) \<and> key_inv kb')"
  proof -
    from backward_prove_total[of rt kb goal_attr goal_val] obtain out kb' vis where
      b: "backward_prove rt kb goal_attr goal_val = Some (out, kb', vis)"
      by (metis not_Some_eq prod_cases3)
    with prove_depth_sound have "bp_post kb goal_attr [] (out, kb', vis)"
      unfolding sound_prover_def backward_prove_def by blast
    with b show ?thesis by (auto simp: bp_post_def)
  qed
  show "key_inv (snd (load_json rt obj))" using load_json_post by blast
  show "key_inv kb \<longrightarrow> key_inv (restore_kb kb2 (snapshot_kb kb))"
    by (simp add: restore_snapshot)
qed

theorem facts_justifications_same_keys_witness:
  "key_inv kb_fever \<and> key_inv (add_fact kb_fever ''Pulso'' (PInt 80) ''base'') \<and>
   key_inv (snd (forward_chain ascii_runtime kb_fever 50))"
proof -
  have k: "key_inv kb_fever" by (auto simp: key_inv_def kb_fever_def)
  from facts_justifications_same_keys[of kb_fever "''Pulso''" "PInt 80" "''base''" ascii_runtime 50
      "''Febre''" "PStr ''Sim''" json_two_rules kb_fever] k
  show ?thesis by blast
qed

subsection \<open>C9: the default value of has_fact\<close>

text \<open>C9: \<^verbatim>\<open>has_fact\<close> with the value \<^verbatim>\<open>None\<close> tests the presence of the attribute
  only, and \<^verbatim>\<open>backward_prove\<close> with the goal value \<^verbatim>\<open>None\<close> succeeds at once,
  without touching the store, for every attribute that has a fact.\<close>

theorem has_fact_none_presence:
  "has_fact kb a PNone = (a \<in> dom (facts kb)) \<and>
   (a \<in> dom (facts kb) \<longrightarrow> backward_prove rt kb a PNone = Some (Returned True, kb, [(a, PNone)]))"
  by (auto simp: has_fact_def backward_prove_def in_visited_def split: option.splits)

theorem has_fact_none_presence_witness:
  "has_fact kb_fever ''Febre'' PNone \<and>
   backward_prove ascii_runtime kb_fever ''Febre'' PNone = Some (Returned True, kb_fever, [(''Febre'', PNone)])"
proof -
  have d: "''Febre'' \<in> dom (facts kb_fever)" by (simp add: kb_fever_def)
  from has_fact_none_presence[of kb_fever "''Febre''" ascii_runtime] d show ?thesis by blast
qed

subsection \<open>C10: rule ids after a load\<close>

text \<open>C10: after a \<^verbatim>\<open>load_json\<close> that returns, the counter is above the id of every loaded
  rule, every id handed out by later calls of \<^verbatim>\<open>add_rule\<close> is above all of them, and
  if the loaded ids are distinct then so are the ids of all rules afterwards.\<close>

theorem load_json_next_rule_id:
  assumes "load_json rt obj = (None, kb)" and "add_rules rt kb specs = (rids, kb')"
  shows "(\<forall>r\<in>set (rules kb). r_id r + 1 \<le> next_rule_id kb) \<and>
         (\<forall>rid\<in>set rids. \<forall>r\<in>set (rules kb). r_id r < rid) \<and>
         (distinct (map r_id (rules kb)) \<longrightarrow> distinct (map r_id (rules kb')))"
proof -
  from load_json_post[of rt obj] assms(1) have i: "ids_below kb" by simp
  note q = add_rules_post[OF assms(2)]
  from i have 1: "\<forall>r\<in>set (rules kb). r_id r + 1 \<le> next_rule_id kb"
    by (auto simp: ids_below_def)
  from i q have 2: "\<forall>rid\<in>set rids. \<forall>r\<in>set (rules kb). r_id r < rid"
    by (fastforce simp: ids_below_def)
  from 2 q have 3: "distinct (map r_id (rules kb)) \<longrightarrow> distinct (map r_id (rules kb'))"
    by auto
  from 1 2 3 show ?thesis by blast
qed

theorem load_json_next_rule_id_witness:
  "fst (load_json ascii_runtime json_two_rules) = None \<and>
   next_rule_id (snd (load_json ascii_runtime json_two_rules)) = 8 \<and>
   fst (add_rules ascii_runtime (snd (load_json ascii_runtime json_two_rules))
          [([], \<lparr>c_attr = ''D'', c_op = ''='', c_value = PInt 1\<rparr>, ''ENTAO D = 1'')]) = [8]"
proof -
  let ?l = "load_json ascii_runtime json_two_rules"
  let ?a = "add_rules ascii_runtime (snd ?l) [([], \<lparr>c_attr = ''D'', c_op = ''='', c_value = PInt 1\<rparr>, ''ENTAO D = 1'')]"
  have e: "fst ?l = None"
    by (simp add: load_json_def json_two_rules_def Let_def split: prod.splits)
  then have h1: "?l = (None, snd ?l)" by (metis prod.collapse)
  have h2: "?a = (fst ?a, snd ?a)" by simp
  have n: "next_rule_id (snd ?l) = 8"
    by (simp add: load_json_def json_two_rules_def Let_def rebuild_core init_kb_def add_fact_def)
  have r: "fst ?a = [8]"
    using n by (simp add: add_rule_def Let_def split: prod.splits)
  from load_json_next_rule_id[OF h1 h2] e n r show ?thesis by simp
qed

end
